theory Spec2Isabelle
  imports Complex_Main "HOL-Library.Sublist"
begin

section \<open>Guardrail verifier (\<open>grader/ai_cleanup.py\<close>)\<close>

text \<open>
  Python strings are modelled as \<open>string\<close>, one \<open>char\<close> per code point (code points
  below 256). The placeholder marker is the literal the masker inserts and the verifier
  splits on.
\<close>

definition UNK :: string where
  "UNK = ''[[UNK]]''"

text \<open>
  \<open>regex.split(r"(\[\[UNK]])", masked_text)\<close>: the pattern matches the literal marker,
  matches are taken leftmost and non-overlapping, and because of the capture group each
  matched marker is kept in the result between the surrounding literal pieces (empty
  pieces included). \<open>acc\<close> is the literal piece collected since the last marker.
\<close>

function split_from :: "string \<Rightarrow> string \<Rightarrow> string list" where
  "split_from acc [] = [acc]"
| "split_from acc (c # cs) =
     (if prefix UNK (c # cs)
      then acc # UNK # split_from [] (drop (length UNK) (c # cs))
      else split_from (acc @ [c]) cs)"
  by pat_completeness auto
termination
  by (relation "measure (\<lambda>(acc, s). length s)") (auto simp: UNK_def)

definition regex_split :: "string \<Rightarrow> string list" where
  "regex_split masked_text = split_from [] masked_text"

text \<open>
  \<open>s[i:j]\<close> for \<open>0 \<le> i \<le> j\<close>, and \<open>s.find(sub, start)\<close> with \<open>None\<close> for \<open>-1\<close>: the
  lowest index \<open>i \<ge> start\<close> with \<open>s[i:i+len(sub)] == sub\<close>.
\<close>

definition py_slice :: "string \<Rightarrow> nat \<Rightarrow> nat \<Rightarrow> string" where
  "py_slice s i j = take (j - i) (drop i s)"

definition occurs_at :: "string \<Rightarrow> string \<Rightarrow> nat \<Rightarrow> bool" where
  "occurs_at sub s i = (i + length sub \<le> length s \<and> take (length sub) (drop i s) = sub)"

definition py_find :: "string \<Rightarrow> string \<Rightarrow> nat \<Rightarrow> nat option" where
  "py_find s sub start = List.find (occurs_at sub s) [start ..< Suc (length s)]"

text \<open>
  The look-ahead loop of \<open>_guardrail_ok\<close>: the first of the remaining parts that is not
  the marker, or the empty string when there is none.
\<close>

fun next_literal :: "string list \<Rightarrow> string" where
  "next_literal [] = []"
| "next_literal (look_ahead # rest) =
     (if look_ahead \<noteq> UNK then look_ahead else next_literal rest)"

text \<open>
  The \<open>while idx < len(parts)\<close> loop, as a recursion over \<open>parts[idx:]\<close> that threads
  \<open>position\<close>; \<open>False\<close> is the early \<open>return False\<close>.
\<close>

fun walk :: "string \<Rightarrow> string list \<Rightarrow> nat \<Rightarrow> bool" where
  "walk restored_text [] position = True"
| "walk restored_text (part # rest) position =
     (if part = UNK then
        (if next_literal rest = [] then walk restored_text rest (length restored_text)
         else (case py_find restored_text (next_literal rest) position of
                 None \<Rightarrow> False
               | Some next_pos \<Rightarrow> walk restored_text rest next_pos))
      else if part = [] then walk restored_text rest position
      else (let end_pos = position + length part in
            if py_slice restored_text position end_pos \<noteq> part then False
            else walk restored_text rest end_pos))"

definition guardrail_ok :: "string \<Rightarrow> string \<Rightarrow> bool" where
  "guardrail_ok masked_text restored_text =
     (if masked_text = restored_text then True
      else walk restored_text (regex_split masked_text) 0)"


section \<open>Restoration orchestrator (\<open>grader/ai_cleanup.py\<close>)\<close>

record CleanupResult =
  restored_text :: string
  attempts :: nat
  guardrail_triggered :: bool
  guardrail_violated :: bool

text \<open>
  The completion capability \<open>client.restore(masked_text, temperature=...)\<close> is an
  external, stateful collaborator that may raise: a function on an explicit client state
  \<open>'s\<close> returning the answer or the exception \<open>'e\<close>, and the new state. The optional
  logger is a flag (present or \<open>None\<close>) and the list of warnings emitted so far.
\<close>

type_synonym ('s, 'e) client = "string \<Rightarrow> real \<Rightarrow> 's \<Rightarrow> ('e + string) \<times> 's"

definition retry_warning :: string where
  "retry_warning = ''Guardrail violation detected; retrying cleanup with temperature=0.0''"

definition persist_warning :: string where
  "persist_warning =
     ''Guardrail violation persists after retry; accepting restored text with warning.''"

definition temps :: "real list" where
  "temps = [0.2, 0.0]"

text \<open>
  The \<open>for idx, temperature in enumerate(temps, start=1)\<close> loop over the remaining
  schedule, threading the locals \<open>attempts\<close>, \<open>guardrail_triggered\<close> and
  \<open>restored_text\<close>; the first equation is the code after the loop. An exception of the
  client leaves the function at once.
\<close>

fun attempt_loop ::
  "('s, 'e) client \<Rightarrow> bool \<Rightarrow> string \<Rightarrow> (nat \<times> real) list \<Rightarrow> nat \<Rightarrow> bool \<Rightarrow> string \<Rightarrow>
     's \<Rightarrow> string list \<Rightarrow> ('e + CleanupResult) \<times> 's \<times> string list" where
  "attempt_loop client logger masked_text [] attempts_so_far triggered text s warnings =
     (let violated = \<not> guardrail_ok masked_text text in
      (Inr \<lparr>restored_text = text, attempts = attempts_so_far,
            guardrail_triggered = triggered, guardrail_violated = violated\<rparr>,
       s, if violated \<and> logger then warnings @ [persist_warning] else warnings))"
| "attempt_loop client logger masked_text ((idx, temperature) # schedule) attempts_so_far
       triggered text s warnings =
     (case client masked_text temperature s of
        (Inl e, s') \<Rightarrow> (Inl e, s', warnings)
      | (Inr candidate, s') \<Rightarrow>
          if guardrail_ok masked_text candidate then
            (Inr \<lparr>restored_text = candidate, attempts = idx,
                  guardrail_triggered = (if idx > 1 then True else triggered),
                  guardrail_violated = False\<rparr>, s', warnings)
          else attempt_loop client logger masked_text schedule idx True candidate s'
                 (if logger then warnings @ [retry_warning] else warnings))"

definition restore ::
  "('s, 'e) client \<Rightarrow> bool \<Rightarrow> string \<Rightarrow> 's \<Rightarrow> ('e + CleanupResult) \<times> 's \<times> string list" where
  "restore client logger masked_text s =
     attempt_loop client logger masked_text (List.enumerate 1 temps) 0 False masked_text s []"

text \<open>
  To observe the calls \<open>restore\<close> makes, a client can be wrapped so that its state also
  carries the list of \<open>(text, temperature)\<close> arguments it has been called with.
\<close>

definition recording :: "('s, 'e) client \<Rightarrow> ('s \<times> (string \<times> real) list, 'e) client" where
  "recording client text temperature st =
     (case client text temperature (fst st) of
        (r, s') \<Rightarrow> (r, (s', snd st @ [(text, temperature)])))"

text \<open>
  The calls \<open>restore\<close> makes to a client, in order: what the recording wrapper has
  collected when \<open>restore\<close> is done (or has been left by an exception).
\<close>

definition calls_made :: "('s, 'e) client \<Rightarrow> bool \<Rightarrow> string \<Rightarrow> 's \<Rightarrow> (string \<times> real) list" where
  "calls_made client logger masked s =
     snd (fst (snd (restore (recording client) logger masked (s, []))))"

text \<open>The test suite's \<open>DummyClient\<close>: scripted responses, \<open>RuntimeError\<close> when exhausted.\<close>

datatype client_error = RuntimeError

definition dummy_client :: "(string list, client_error) client" where
  "dummy_client text temperature responses =
     (case responses of [] \<Rightarrow> (Inl RuntimeError, []) | r # rs \<Rightarrow> (Inr r, rs))"

section \<open>Token masker (\<open>grader/ocr.py\<close>)\<close>

text \<open>
  \<open>str.strip()\<close> removes leading and trailing whitespace; these are the whitespace code
  points below 256.
\<close>

definition py_isspace :: "char \<Rightarrow> bool" where
  "py_isspace c = (c \<in> set [CHR 0x09, CHR 0x0A, CHR 0x0B, CHR 0x0C, CHR 0x0D, CHR 0x1C,
     CHR 0x1D, CHR 0x1E, CHR 0x1F, CHR 0x20, CHR 0x85, CHR 0xA0])"

definition py_strip :: "string \<Rightarrow> string" where
  "py_strip s = rev (dropWhile py_isspace (rev (dropWhile py_isspace s)))"

text \<open>
  \<open>float(confidence)\<close> on a Python int: the nearest double (ties to even, 53 significant
  bits), \<open>OverflowError\<close> when that is beyond the largest double. The double of an int
  is itself an integer, so the result is kept as that integer; Python compares a float
  with an int by value.
\<close>

datatype pyexc = ValueError | OverflowError

function bit_length :: "int \<Rightarrow> nat" where
  "bit_length n = (if n \<le> 0 then 0 else Suc (bit_length (n div 2)))"
  by pat_completeness auto
termination
  by (relation "measure nat") auto

declare bit_length.simps [simp del]

definition round_to_double :: "int \<Rightarrow> int" where
  "round_to_double a =
     (if bit_length a \<le> 53 then a
      else (let shift = bit_length a - 53;
                q = a div 2 ^ shift;
                r = a mod 2 ^ shift;
                half = 2 ^ (shift - 1);
                q' = (if r > half \<or> (r = half \<and> odd q) then q + 1 else q)
            in q' * 2 ^ shift))"

definition py_float :: "int \<Rightarrow> pyexc + int" where
  "py_float n =
     (let a = round_to_double \<bar>n\<bar> in
      if a \<ge> 2 ^ 1024 then Inl OverflowError
      else Inr (if n < 0 then - a else a))"

text \<open>
  The regular expressions. The class \<open>\w\<close> of the regex library is the parameter
  \<open>wordc\<close>. \<open>regex.match(r"^\w+$", token)\<close>: a non-empty run of word characters up to
  the end of the token, where \<open>$\<close> also matches just before a final newline.
  \<open>\b\<close> holds at index \<open>i\<close> when exactly one of the characters before and after \<open>i\<close>
  is a word character (the ends of the text count as non-word). The compiled pattern is
  the escaped token, between two \<open>\b\<close> when \<open>is_word\<close>; \<open>pattern.search(text, pos)\<close>
  returns the leftmost match starting at or after \<open>pos\<close>, and \<open>\b\<close> at \<open>pos\<close> still sees
  the character before it.
\<close>

definition re_match_word :: "(char \<Rightarrow> bool) \<Rightarrow> string \<Rightarrow> bool" where
  "re_match_word wordc token =
     (takeWhile wordc token \<noteq> [] \<and>
      (dropWhile wordc token = [] \<or> dropWhile wordc token = [CHR 0x0A]))"

definition is_boundary :: "(char \<Rightarrow> bool) \<Rightarrow> string \<Rightarrow> nat \<Rightarrow> bool" where
  "is_boundary wordc s i =
     ((0 < i \<and> i \<le> length s \<and> wordc (s ! (i - 1))) \<noteq> (i < length s \<and> wordc (s ! i)))"

definition matches_at :: "(char \<Rightarrow> bool) \<Rightarrow> bool \<Rightarrow> string \<Rightarrow> string \<Rightarrow> nat \<Rightarrow> bool" where
  "matches_at wordc is_word token s i =
     (occurs_at token s i \<and>
      (is_word \<longrightarrow> is_boundary wordc s i \<and> is_boundary wordc s (i + length token)))"

definition pattern_search ::
  "(char \<Rightarrow> bool) \<Rightarrow> bool \<Rightarrow> string \<Rightarrow> string \<Rightarrow> nat \<Rightarrow> (nat \<times> nat) option" where
  "pattern_search wordc is_word token s pos =
     (case List.find (matches_at wordc is_word token s) [pos ..< Suc (length s)] of
        None \<Rightarrow> None
      | Some i \<Rightarrow> Some (i, i + length token))"

record mask_state =
  masked_text :: string
  masked_count :: nat
  search_start :: nat

text \<open>One iteration of the loop of \<open>_build_masked_text\<close>; \<open>Inr st\<close> unchanged is \<open>continue\<close>.\<close>

definition mask_step ::
  "(char \<Rightarrow> bool) \<Rightarrow> int \<Rightarrow> mask_state \<Rightarrow> string \<times> int \<Rightarrow> pyexc + mask_state" where
  "mask_step wordc threshold st pair =
     (let token = py_strip (fst pair); confidence = snd pair in
      if token = [] then Inr st
      else (case py_float confidence of
              Inl ValueError \<Rightarrow> Inr st
            | Inl e \<Rightarrow> Inl e
            | Inr confidence_val \<Rightarrow>
                if confidence_val < threshold \<and> confidence_val \<ge> 0 then
                  (let is_word = re_match_word wordc token in
                   case pattern_search wordc is_word token (masked_text st) (search_start st) of
                     None \<Rightarrow> Inr st
                   | Some (m_start, m_end) \<Rightarrow>
                       Inr \<lparr>masked_text = take m_start (masked_text st) @ UNK
                                            @ drop m_end (masked_text st),
                            masked_count = masked_count st + 1,
                            search_start = m_start + length UNK\<rparr>)
                else Inr st))"

fun mask_loop ::
  "(char \<Rightarrow> bool) \<Rightarrow> int \<Rightarrow> mask_state \<Rightarrow> (string \<times> int) list \<Rightarrow> pyexc + mask_state" where
  "mask_loop wordc threshold st [] = Inr st"
| "mask_loop wordc threshold st (pair # pairs) =
     (case mask_step wordc threshold st pair of
        Inl e \<Rightarrow> Inl e
      | Inr st' \<Rightarrow> mask_loop wordc threshold st' pairs)"

definition build_masked_text ::
  "(char \<Rightarrow> bool) \<Rightarrow> string \<Rightarrow> string list \<Rightarrow> int list \<Rightarrow> int \<Rightarrow> pyexc + string \<times> nat" where
  "build_masked_text wordc raw_text tokens confidences threshold =
     (case mask_loop wordc threshold
             \<lparr>masked_text = raw_text, masked_count = 0, search_start = 0\<rparr>
             (zip tokens confidences) of
        Inl e \<Rightarrow> Inl e
      | Inr st \<Rightarrow> Inr (masked_text st, masked_count st))"

text \<open>The ASCII part of \<open>\w\<close>: letters, digits and the underscore.\<close>

definition ascii_word :: "char \<Rightarrow> bool" where
  "ascii_word c = (let n = (of_char c :: nat) in
     (48 \<le> n \<and> n \<le> 57) \<or> (65 \<le> n \<and> n \<le> 90) \<or> n = 95 \<or> (97 \<le> n \<and> n \<le> 122))"

section \<open>Notions used to state the properties of the verifier\<close>


text \<open>
  The form a candidate must have to be accepted, in the words of the specification: the
  literal parts in their order, each at the place where the previous one ends; for each
  placeholder any text, possibly none; and after the last part any text.
\<close>

fun literals_in_order :: "string list \<Rightarrow> string \<Rightarrow> bool" where
  "literals_in_order [] c = True"
| "literals_in_order (p # ps) c =
     (if p = UNK then (\<exists>k\<in>set [0 ..< Suc (length c)]. literals_in_order ps (drop k c))
      else prefix p c \<and> literals_in_order ps (drop (length p) c))"

text \<open>
  A candidate formed from the parts of a masked text: each placeholder replaced by the
  next filler, each literal part kept (a placeholder with no filler left is kept).
\<close>

fun substitute :: "string list \<Rightarrow> string list \<Rightarrow> string" where
  "substitute [] fillers = []"
| "substitute (part # rest) fillers =
     (if part = UNK then
        (case fillers of [] \<Rightarrow> UNK @ substitute rest [] | f # fs \<Rightarrow> f @ substitute rest fs)
      else part @ substitute rest fillers)"



section \<open>Notions used to state the properties of the masker\<close>


text \<open>
  The condition under which the loop searches for a token, and the trimmed tokens of the
  pairs that meet it, in the order supplied.
\<close>

definition low_confidence :: "int \<Rightarrow> int \<Rightarrow> bool" where
  "low_confidence threshold confidence =
     (case py_float confidence of Inl e \<Rightarrow> False | Inr v \<Rightarrow> v < threshold \<and> 0 \<le> v)"

definition low_confidence_tokens :: "int \<Rightarrow> (string \<times> int) list \<Rightarrow> string list" where
  "low_confidence_tokens threshold pairs =
     map (\<lambda>pair. py_strip (fst pair))
       (filter (\<lambda>pair. py_strip (fst pair) \<noteq> [] \<and> low_confidence threshold (snd pair)) pairs)"

text \<open>
  A transcript cut into segments: each segment is a gap of untouched text followed by a
  token occurrence, and \<open>rest\<close> is the untouched text after the last one. \<open>source_of\<close>
  is the transcript itself, \<open>masked_of\<close> the same with every token occurrence replaced
  by the placeholder.
\<close>

definition source_of :: "(string \<times> string) list \<Rightarrow> string \<Rightarrow> string" where
  "source_of segs rest = concat (map (\<lambda>seg. fst seg @ snd seg) segs) @ rest"

definition masked_of :: "(string \<times> string) list \<Rightarrow> string \<Rightarrow> string" where
  "masked_of segs rest = concat (map (\<lambda>seg. fst seg @ UNK) segs) @ rest"

section \<open>Properties of the restoration orchestrator\<close>

lemma restore_unfold:
  "restore client logger masked s =
     attempt_loop client logger masked [(1, 0.2), (2, 0)] 0 False masked s []"
  by (simp add: restore_def temps_def numeral_2_eq_2 del: attempt_loop.simps)

text \<open>The verifier on the candidates of the test suite.\<close>

lemma guardrail_hello_friend: "guardrail_ok ''Hello [[UNK]] world'' ''Hello friend world''"
  by code_simp

lemma guardrail_hello_pal: "guardrail_ok ''Hello [[UNK]] world'' ''Hello pal world''"
  by code_simp

lemma guardrail_hi_friend: "\<not> guardrail_ok ''Hello [[UNK]] world'' ''Hi friend world''"
  by code_simp

lemma guardrail_greetings_pal: "\<not> guardrail_ok ''Hello [[UNK]] world'' ''Greetings pal world''"
  by code_simp

text \<open>
  C4 (orchestrator escalation law). If the first candidate passes verification,
  \<open>restore\<close> returns it at once with \<open>attempts = 1\<close> and both flags false, after one
  call. If the first candidate fails and the second passes, \<open>restore\<close> returns the second
  candidate with \<open>attempts = 2\<close>, \<open>guardrail_triggered\<close> true and
  \<open>guardrail_violated\<close> false.
\<close>

theorem restore_escalation:
  "(client masked 0.2 s = (Inr c1, s1) \<and> guardrail_ok masked c1 \<longrightarrow>
      restore client logger masked s =
        (Inr \<lparr>restored_text = c1, attempts = 1, guardrail_triggered = False,
              guardrail_violated = False\<rparr>, s1, [])) \<and>
   (client masked 0.2 s = (Inr c1, s1) \<and> \<not> guardrail_ok masked c1 \<and>
    client masked 0 s1 = (Inr c2, s2) \<and> guardrail_ok masked c2 \<longrightarrow>
      restore client logger masked s =
        (Inr \<lparr>restored_text = c2, attempts = 2, guardrail_triggered = True,
              guardrail_violated = False\<rparr>, s2, if logger then [retry_warning] else []))"
  by (simp add: restore_unfold)

theorem restore_escalation_witness:
  "restore dummy_client True ''Hello [[UNK]] world'' [''Hello friend world''] =
     (Inr \<lparr>restored_text = ''Hello friend world'', attempts = 1, guardrail_triggered = False,
           guardrail_violated = False\<rparr>, [], []) \<and>
   restore dummy_client True ''Hello [[UNK]] world'' [''Hi friend world'', ''Hello pal world''] =
     (Inr \<lparr>restored_text = ''Hello pal world'', attempts = 2, guardrail_triggered = True,
           guardrail_violated = False\<rparr>, [], [retry_warning])"
  using restore_escalation [where client = dummy_client and logger = True
      and masked = "''Hello [[UNK]] world''" and s = "[''Hello friend world'']"
      and ?c1.0 = "''Hello friend world''" and ?s1.0 = "[]"]
    restore_escalation [where client = dummy_client and logger = True
      and masked = "''Hello [[UNK]] world''" and s = "[''Hi friend world'', ''Hello pal world'']"
      and ?c1.0 = "''Hi friend world''" and ?s1.0 = "[''Hello pal world'']"
      and ?c2.0 = "''Hello pal world''" and ?s2.0 = "[]"]
  by (simp add: dummy_client_def guardrail_hello_friend guardrail_hello_pal guardrail_hi_friend)

text \<open>
  C5 (orchestrator exhaustion law). If both candidates fail verification, \<open>restore\<close>
  still returns the second candidate, with \<open>attempts = 2\<close> and both flags true.
\<close>

theorem restore_exhaustion:
  "client masked 0.2 s = (Inr c1, s1) \<Longrightarrow> \<not> guardrail_ok masked c1 \<Longrightarrow>
   client masked 0 s1 = (Inr c2, s2) \<Longrightarrow> \<not> guardrail_ok masked c2 \<Longrightarrow>
   restore client logger masked s =
     (Inr \<lparr>restored_text = c2, attempts = 2, guardrail_triggered = True,
           guardrail_violated = True\<rparr>, s2,
      if logger then [retry_warning, retry_warning, persist_warning] else [])"
  by (simp add: restore_unfold)

theorem restore_exhaustion_witness:
  "restore dummy_client False ''Hello [[UNK]] world''
       [''Hi friend world'', ''Greetings pal world''] =
     (Inr \<lparr>restored_text = ''Greetings pal world'', attempts = 2, guardrail_triggered = True,
           guardrail_violated = True\<rparr>, [], [])"
  using restore_exhaustion [where client = dummy_client and logger = False
      and masked = "''Hello [[UNK]] world''"
      and s = "[''Hi friend world'', ''Greetings pal world'']"
      and ?c1.0 = "''Hi friend world''" and ?s1.0 = "[''Greetings pal world'']"
      and ?c2.0 = "''Greetings pal world''" and ?s2.0 = "[]"]
  by (simp add: dummy_client_def guardrail_hi_friend guardrail_greetings_pal)

text \<open>
  C8 (orchestrator schedule law). \<open>restore\<close> calls the client once or twice, always on
  the masked text: first with temperature 0.2 (which is not zero), then with temperature
  0. The second call is made exactly when the first call returned a candidate that fails
  verification. An exception of the client, on the first or on the second call, is the
  outcome of \<open>restore\<close>, and no further call is made.
\<close>

theorem restore_schedule:
  "(calls_made client logger masked s = [(masked, 0.2)] \<or>
    calls_made client logger masked s = [(masked, 0.2), (masked, 0)]) \<and>
   (0.2 :: real) \<noteq> 0 \<and>
   (calls_made client logger masked s = [(masked, 0.2), (masked, 0)] \<longleftrightarrow>
      (\<exists>c1 s1. client masked 0.2 s = (Inr c1, s1) \<and> \<not> guardrail_ok masked c1)) \<and>
   (client masked 0.2 s = (Inl e, s1) \<longrightarrow>
      restore client logger masked s = (Inl e, s1, []) \<and>
      calls_made client logger masked s = [(masked, 0.2)]) \<and>
   (client masked 0.2 s = (Inr c1, s1) \<and> \<not> guardrail_ok masked c1 \<and>
    client masked 0 s1 = (Inl e, s2) \<longrightarrow>
      restore client logger masked s = (Inl e, s2, if logger then [retry_warning] else []) \<and>
      calls_made client logger masked s = [(masked, 0.2), (masked, 0)])"
  by (auto simp: calls_made_def restore_unfold recording_def
      split: prod.splits sum.splits if_splits)

theorem restore_schedule_witness:
  "calls_made dummy_client True ''Hello [[UNK]] world'' [''Hi friend world'', ''Hello pal world'']
     = [(''Hello [[UNK]] world'', 0.2), (''Hello [[UNK]] world'', 0)] \<and>
   restore dummy_client True ''Hello [[UNK]] world'' [] = (Inl RuntimeError, [], []) \<and>
   calls_made dummy_client True ''Hello [[UNK]] world'' [] = [(''Hello [[UNK]] world'', 0.2)] \<and>
   restore dummy_client True ''Hello [[UNK]] world'' [''Hi friend world'']
     = (Inl RuntimeError, [], [retry_warning]) \<and>
   calls_made dummy_client True ''Hello [[UNK]] world'' [''Hi friend world'']
     = [(''Hello [[UNK]] world'', 0.2), (''Hello [[UNK]] world'', 0)]"
  using restore_schedule [where client = dummy_client and logger = True
      and masked = "''Hello [[UNK]] world''" and s = "[''Hi friend world'', ''Hello pal world'']"]
    restore_schedule [where client = dummy_client and logger = True
      and masked = "''Hello [[UNK]] world''" and s = "[]" and e = RuntimeError
      and ?s1.0 = "[]"]
    restore_schedule [where client = dummy_client and logger = True
      and masked = "''Hello [[UNK]] world''" and s = "[''Hi friend world'']"
      and e = RuntimeError and ?c1.0 = "''Hi friend world''" and ?s1.0 = "[]"
      and ?s2.0 = "[]"]
  by (simp add: dummy_client_def guardrail_hi_friend)

text \<open>
  C10 (restoration result invariant). Every result \<open>restore\<close> returns has
  \<open>attempts\<close> 1 or 2; \<open>guardrail_violated\<close> implies \<open>guardrail_triggered\<close> and
  \<open>attempts = 2\<close>; and \<open>attempts = 1\<close> implies that both flags are false.
\<close>

theorem restore_result_invariant:
  "fst (restore client logger masked s) = Inr res \<Longrightarrow>
   (attempts res = 1 \<or> attempts res = 2) \<and>
   (guardrail_violated res \<longrightarrow> guardrail_triggered res) \<and>
   (guardrail_violated res \<longrightarrow> attempts res = 2) \<and>
   (attempts res = 1 \<longrightarrow> \<not> guardrail_triggered res \<and> \<not> guardrail_violated res)"
  by (auto simp: restore_unfold split: prod.splits sum.splits if_splits)

theorem restore_result_invariant_witness:
  "fst (restore dummy_client False ''Hello [[UNK]] world''
          [''Hi friend world'', ''Greetings pal world'']) =
     Inr \<lparr>restored_text = ''Greetings pal world'', attempts = 2, guardrail_triggered = True,
          guardrail_violated = True\<rparr> \<and>
   fst (restore dummy_client False ''Hello [[UNK]] world'' [''Hello friend world'']) =
     Inr \<lparr>restored_text = ''Hello friend world'', attempts = 1, guardrail_triggered = False,
          guardrail_violated = False\<rparr>"
  using restore_result_invariant [where client = dummy_client and logger = False
      and masked = "''Hello [[UNK]] world''"
      and s = "[''Hi friend world'', ''Greetings pal world'']"
      and res = "\<lparr>restored_text = ''Greetings pal world'', attempts = 2,
          guardrail_triggered = True, guardrail_violated = True\<rparr>"]
    restore_result_invariant [where client = dummy_client and logger = False
      and masked = "''Hello [[UNK]] world''" and s = "[''Hello friend world'']"
      and res = "\<lparr>restored_text = ''Hello friend world'', attempts = 1,
          guardrail_triggered = False, guardrail_violated = False\<rparr>"]
  by (simp add: restore_unfold dummy_client_def guardrail_hi_friend guardrail_greetings_pal
      guardrail_hello_friend)

section \<open>Properties of the guardrail verifier\<close>

subsection \<open>Searching\<close>

lemma find_upt_Some:
  "List.find P [a ..< b] = Some i \<longleftrightarrow>
     a \<le> i \<and> i < b \<and> P i \<and> (\<forall>j. a \<le> j \<and> j < i \<longrightarrow> \<not> P j)"
proof
  assume "List.find P [a ..< b] = Some i"
  then obtain k where k: "k < length [a ..< b]" "P ([a ..< b] ! k)" "i = [a ..< b] ! k"
    "\<forall>j<k. \<not> P ([a ..< b] ! j)"
    unfolding find_Some_iff by blast
  from k(1) have kb: "a + k < b" by simp
  with k(3) have i: "i = a + k" by simp
  have "\<not> P j" if "a \<le> j" "j < i" for j
  proof -
    from that i have "j - a < k" by arith
    with k(4) have "\<not> P ([a ..< b] ! (j - a))" by blast
    moreover from that i kb have "[a ..< b] ! (j - a) = j" by simp
    ultimately show ?thesis by simp
  qed
  with k(2) i kb show "a \<le> i \<and> i < b \<and> P i \<and> (\<forall>j. a \<le> j \<and> j < i \<longrightarrow> \<not> P j)"
    by simp
next
  assume h: "a \<le> i \<and> i < b \<and> P i \<and> (\<forall>j. a \<le> j \<and> j < i \<longrightarrow> \<not> P j)"
  then have "i - a < length [a ..< b]" "[a ..< b] ! (i - a) = i" by auto
  moreover have "\<forall>j<i - a. \<not> P ([a ..< b] ! j)"
  proof (intro allI impI)
    fix j assume "j < i - a"
    with h have "[a ..< b] ! j = a + j" "a \<le> a + j" "a + j < i" by auto
    with h show "\<not> P ([a ..< b] ! j)" by simp
  qed
  ultimately show "List.find P [a ..< b] = Some i"
    unfolding find_Some_iff using h by metis
qed


lemma py_find_Some:
  "py_find s sub start = Some i \<longleftrightarrow>
     start \<le> i \<and> occurs_at sub s i \<and> (\<forall>j. start \<le> j \<and> j < i \<longrightarrow> \<not> occurs_at sub s j)"
  unfolding py_find_def find_upt_Some by (auto simp: occurs_at_def)






subsection \<open>The walk over the parts\<close>



lemma UNK_nonempty: "UNK \<noteq> []"
  by (simp add: UNK_def)



lemma walk_literals_in_order:
  "walk r ps pos \<Longrightarrow> pos \<le> length r \<Longrightarrow> literals_in_order ps (drop pos r)"
proof (induction ps arbitrary: pos)
  case Nil
  show ?case by simp
next
  case (Cons p ps)
  show ?case
  proof (cases "p = UNK")
    case True
    have "\<exists>np. pos \<le> np \<and> np \<le> length r \<and> walk r ps np"
    proof (cases "next_literal ps = []")
      case True
      with Cons.prems \<open>p = UNK\<close> show ?thesis by auto
    next
      case False
      with Cons.prems \<open>p = UNK\<close> obtain np where
        np: "py_find r (next_literal ps) pos = Some np" "walk r ps np"
        by (auto split: option.splits)
      from np(1) have "pos \<le> np" "np \<le> length r" by (auto simp: py_find_Some occurs_at_def)
      with np(2) show ?thesis by blast
    qed
    then obtain np where np: "pos \<le> np" "np \<le> length r" "walk r ps np" by blast
    from np(3) np(2) have "literals_in_order ps (drop np r)" by (rule Cons.IH)
    moreover from np(1) have "drop np r = drop (np - pos) (drop pos r)" by simp
    moreover from np(1,2) have "np - pos \<in> set [0 ..< Suc (length (drop pos r))]" by auto
    ultimately show ?thesis using \<open>p = UNK\<close> by (metis literals_in_order.simps(2))
  next
    case False
    show ?thesis
    proof (cases "p = []")
      case True
      with Cons False show ?thesis by simp
    next
      case False
      with Cons.prems \<open>p \<noteq> UNK\<close> have
        sl: "py_slice r pos (pos + length p) = p" and w: "walk r ps (pos + length p)"
        by (auto simp: Let_def split: if_splits)
      from sl have tk: "take (length p) (drop pos r) = p" by (simp add: py_slice_def)
      then have "length (take (length p) (drop pos r)) = length p" by simp
      then have "length p \<le> length r - pos" by simp
      with Cons.prems(2) have le: "pos + length p \<le> length r" by simp
      from tk have "prefix p (drop pos r)" by (metis take_is_prefix)
      moreover from Cons.IH [OF w le] have "literals_in_order ps (drop (length p) (drop pos r))"
        by (simp add: add.commute)
      ultimately show ?thesis using \<open>p \<noteq> UNK\<close> by simp
    qed
  qed
qed

lemma concat_split_from: "concat (split_from acc s) = acc @ s"
proof (induction acc s rule: split_from.induct)
  case (1 acc)
  show ?case by simp
next
  case (2 acc c cs)
  show ?case
  proof (cases "prefix UNK (c # cs)")
    case True
    then have "UNK @ drop (length UNK) (c # cs) = c # cs"
      by (metis append_eq_conv_conj prefix_def)
    with 2(1) [OF True] True show ?thesis by simp
  next
    case False
    with 2(2) [OF False] show ?thesis by simp
  qed
qed

lemma concat_regex_split: "concat (regex_split m) = m"
  by (simp add: regex_split_def concat_split_from)

lemma literals_in_order_concat: "literals_in_order ps (concat ps @ t)"
proof (induction ps)
  case Nil
  show ?case by simp
next
  case (Cons p ps)
  show ?case
  proof (cases "p = UNK")
    case True
    have "length UNK \<le> length (concat (p # ps) @ t)"
      using True by simp
    then have "length UNK \<in> set [0 ..< Suc (length (concat (p # ps) @ t))]"
      by (simp only: set_upt atLeastLessThan_iff less_Suc_eq_le le0 simp_thms)
    moreover have "literals_in_order ps (drop (length UNK) (concat (p # ps) @ t))"
      using True Cons by simp
    ultimately show ?thesis using True by (metis literals_in_order.simps(2))
  next
    case False
    with Cons show ?thesis by simp
  qed
qed

text \<open>
  C2 (guardrail tamper law). As stated the law does not hold: the verifier never checks
  that the candidate ends where the last part ends, so text appended after the final
  literal part is accepted.
\<close>

theorem guardrail_accepts_appended_text:
  "guardrail_ok ''Hello [[UNK]] world'' (''Hello friend world'' @ '' and more'')"
  by code_simp

text \<open>
  C2, amended. A candidate that is accepted consists of the literal parts of the masked
  text, unchanged and in order, with some text in place of each placeholder and some text
  after the last part. So a candidate that is not of this form (a literal part altered,
  deleted or out of order) is rejected.
\<close>

theorem guardrail_rejects_missing_literals:
  "\<not> literals_in_order (regex_split masked) candidate \<Longrightarrow> \<not> guardrail_ok masked candidate"
proof
  assume no: "\<not> literals_in_order (regex_split masked) candidate"
    and ok: "guardrail_ok masked candidate"
  show False
  proof (cases "masked = candidate")
    case True
    have "literals_in_order (regex_split masked) (concat (regex_split masked) @ [])"
      by (rule literals_in_order_concat)
    with True no show False by (simp add: concat_regex_split)
  next
    case False
    with ok have "walk candidate (regex_split masked) 0" by (simp add: guardrail_ok_def)
    then have "literals_in_order (regex_split masked) (drop 0 candidate)"
      by (rule walk_literals_in_order) simp
    with no show False by simp
  qed
qed


theorem guardrail_rejects_missing_literals_witness:
  "\<not> literals_in_order (regex_split ''Hello [[UNK]] world'') ''Hi friend world'' \<and>
   \<not> guardrail_ok ''Hello [[UNK]] world'' ''Hi friend world''"
proof -
  have h: "\<not> literals_in_order (regex_split ''Hello [[UNK]] world'') ''Hi friend world''"
    by code_simp
  from h guardrail_rejects_missing_literals [OF h] show ?thesis by simp
qed

subsection \<open>The shape of a split, and candidates formed by substitution\<close>













text \<open>
  C1 (guardrail containment law). The law fails on the code where two placeholders are
  adjacent and literal text follows: the look-ahead takes the empty literal part between
  them for the end of the text, moves the position to the end of the candidate, and the
  next placeholder then finds no literal. Masking \<open>Hello\<close> and the comma of
  \<open>Hello, world\<close> gives such a masked text; filling the two placeholders with the very
  tokens they replaced, the literal part intact, gives a candidate that is rejected.
  (For masked texts without that pattern the law holds: \<open>guardrail_accepts_fill\<close>.)
\<close>

theorem guardrail_rejects_adjacent_placeholders:
  "build_masked_text ascii_word ''Hello, world'' [''Hello'', '','', ''world''] [10, 10, 90] 65
     = Inr (''[[UNK]][[UNK]] world'', 2) \<and>
   substitute (regex_split ''[[UNK]][[UNK]] world'') [''Hello'', '',''] = ''Hello, world'' \<and>
   \<not> guardrail_ok ''[[UNK]][[UNK]] world'' ''Hello, world''"
  by code_simp

section \<open>Properties of the token masker\<close>

subsection \<open>The conversion of a confidence to a float\<close>

lemma bit_length_bounds:
  "0 < n \<Longrightarrow> 2 ^ (bit_length n - 1) \<le> n \<and> n < 2 ^ bit_length n"
proof (induction n rule: bit_length.induct)
  case (1 n)
  show ?case
  proof (cases "n div 2 \<le> 0")
    case True
    with 1(2) have "n = 1" by simp
    then show ?thesis by (simp add: bit_length.simps [of 1] bit_length.simps [of 0])
  next
    case False
    then have pos: "0 < n div 2" by simp
    from 1(2) have n: "\<not> n \<le> 0" by simp
    from 1(1) [OF n pos] have
      IH: "2 ^ (bit_length (n div 2) - 1) \<le> n div 2" "n div 2 < 2 ^ bit_length (n div 2)"
      by auto
    from pos have bl: "0 < bit_length (n div 2)"
      by (subst bit_length.simps) simp
    from n have eq: "bit_length n = Suc (bit_length (n div 2))"
      by (subst bit_length.simps) simp
    from bl have "(2::int) ^ bit_length (n div 2) = 2 * 2 ^ (bit_length (n div 2) - 1)"
      by (cases "bit_length (n div 2)") simp_all
    with IH(1) have "2 ^ bit_length (n div 2) \<le> 2 * (n div 2)" by simp
    also have "\<dots> \<le> n" by simp
    finally have lo: "2 ^ (bit_length n - 1) \<le> n" by (simp add: eq)
    from IH(2) have "n div 2 + 1 \<le> 2 ^ bit_length (n div 2)" by simp
    then have "2 * (n div 2) + 2 \<le> 2 * 2 ^ bit_length (n div 2)" by simp
    moreover have "n < 2 * (n div 2) + 2" by presburger
    ultimately have hi: "n < 2 ^ bit_length n" by (simp add: eq)
    from lo hi show ?thesis by simp
  qed
qed

lemma round_to_double_small: "\<bar>a\<bar> < 2 ^ 53 \<Longrightarrow> 0 \<le> a \<Longrightarrow> round_to_double a = a"
proof -
  assume a: "\<bar>a\<bar> < 2 ^ 53" "0 \<le> a"
  have "bit_length a \<le> 53"
  proof (cases "a = 0")
    case True
    then show ?thesis by (simp add: bit_length.simps [of 0])
  next
    case False
    with a have "0 < a" by simp
    then have "2 ^ (bit_length a - 1) \<le> a" using bit_length_bounds by blast
    with a have "(2::int) ^ (bit_length a - 1) < 2 ^ 53" by linarith
    then have "bit_length a - 1 < 53" by (simp only: power_strict_increasing_iff one_less_numeral_iff semiring_norm)
    then show ?thesis by simp
  qed
  then show ?thesis by (simp add: round_to_double_def)
qed






lemma py_float_no_ValueError: "py_float n \<noteq> Inl ValueError"
  by (simp add: py_float_def Let_def)







subsection \<open>Searching for a token\<close>

lemma pattern_search_Some:
  "pattern_search wordc w tok s pos = Some (ms, me) \<longleftrightarrow>
     me = ms + length tok \<and> pos \<le> ms \<and> matches_at wordc w tok s ms \<and>
     (\<forall>j. pos \<le> j \<and> j < ms \<longrightarrow> \<not> matches_at wordc w tok s j)"
proof -
  define F where "F = List.find (matches_at wordc w tok s) [pos ..< Suc (length s)]"
  have F: "F = Some i \<longleftrightarrow>
      pos \<le> i \<and> matches_at wordc w tok s i \<and>
      (\<forall>j. pos \<le> j \<and> j < i \<longrightarrow> \<not> matches_at wordc w tok s j)" for i
    unfolding F_def find_upt_Some by (auto simp: matches_at_def occurs_at_def)
  have "pattern_search wordc w tok s pos =
      (case F of None \<Rightarrow> None | Some i \<Rightarrow> Some (i, i + length tok))"
    by (simp only: pattern_search_def F_def)
  also have "\<dots> = Some (ms, me) \<longleftrightarrow> F = Some ms \<and> me = ms + length tok"
    by (cases F) auto
  finally show ?thesis using F [of ms] by blast
qed





lemma mask_step_cases:
  assumes "mask_step wordc threshold st pair = Inr st'"
  shows "st' = st \<or>
    (py_strip (fst pair) \<noteq> [] \<and> low_confidence threshold (snd pair) \<and>
     (\<exists>ms. pattern_search wordc (re_match_word wordc (py_strip (fst pair)))
              (py_strip (fst pair)) (masked_text st) (search_start st)
              = Some (ms, ms + length (py_strip (fst pair))) \<and>
           st' = \<lparr>masked_text = take ms (masked_text st) @ UNK
                     @ drop (ms + length (py_strip (fst pair))) (masked_text st),
                  masked_count = masked_count st + 1,
                  search_start = ms + length UNK\<rparr>))"
proof (cases "st' = st")
  case True
  then show ?thesis by simp
next
  case False
  with assms have ne: "py_strip (fst pair) \<noteq> []"
    by (auto simp: mask_step_def Let_def)
  with assms False obtain v where v: "py_float (snd pair) = Inr v"
    by (cases "py_float (snd pair)") (auto simp: mask_step_def Let_def split: pyexc.splits)
  with assms False ne have low: "v < threshold \<and> 0 \<le> v"
    by (auto simp: mask_step_def Let_def split: if_splits)
  with assms False ne v obtain ms me where
    m: "pattern_search wordc (re_match_word wordc (py_strip (fst pair)))
          (py_strip (fst pair)) (masked_text st) (search_start st) = Some (ms, me)"
    and st': "st' = \<lparr>masked_text = take ms (masked_text st) @ UNK @ drop me (masked_text st),
                  masked_count = masked_count st + 1, search_start = ms + length UNK\<rparr>"
    by (auto simp: mask_step_def Let_def split: option.splits)
  from m have "me = ms + length (py_strip (fst pair))" by (simp add: pattern_search_Some)
  with m st' ne v low show ?thesis by (auto simp: low_confidence_def)
qed





subsection \<open>The segments replaced by the loop\<close>

lemma mask_step_segment:
  assumes "mask_step wordc threshold st pair = Inr st'"
    and "masked_text st = P @ R" and "search_start st = length P"
  shows "st' = st \<or>
    (\<exists>g R'. R = g @ py_strip (fst pair) @ R' \<and> masked_text st' = P @ g @ UNK @ R' \<and>
       search_start st' = length (P @ g @ UNK) \<and> masked_count st' = masked_count st + 1 \<and>
       py_strip (fst pair) \<noteq> [] \<and> low_confidence threshold (snd pair))"
proof (cases "st' = st")
  case True
  then show ?thesis by simp
next
  case False
  define t where "t = py_strip (fst pair)"
  from mask_step_cases [OF assms(1)] False obtain ms where
    ne: "t \<noteq> []" and low: "low_confidence threshold (snd pair)"
    and m: "pattern_search wordc (re_match_word wordc t) t (P @ R) (length P)
          = Some (ms, ms + length t)"
    and st': "st' = \<lparr>masked_text = take ms (P @ R) @ UNK @ drop (ms + length t) (P @ R),
                  masked_count = masked_count st + 1, search_start = ms + length UNK\<rparr>"
    unfolding t_def assms(2) [symmetric] assms(3) [symmetric] by blast
  from m have le: "length P \<le> ms" and occ: "occurs_at t (P @ R) ms"
    by (auto simp: pattern_search_Some matches_at_def)
  define k where "k = ms - length P"
  from le have ms: "ms = length P + k" by (simp add: k_def)
  from occ have tk: "take (length t) (drop k R) = t"
    by (simp add: occurs_at_def ms)
  have e1: "take (length t) (drop k R) @ drop (length t) (drop k R) = drop k R"
    by (rule append_take_drop_id)
  have e2: "drop (length t) (drop k R) = drop (k + length t) R" by (simp add: add.commute)
  from e1 have "t @ drop (k + length t) R = drop k R" unfolding tk e2 .
  then have "drop k R = t @ drop (k + length t) R" by (rule sym)
  moreover have "R = take k R @ drop k R" by simp
  ultimately have R: "R = take k R @ t @ drop (k + length t) R" by simp
  have "take ms (P @ R) = P @ take k R" by (simp add: ms)
  moreover have "drop (ms + length t) (P @ R) = drop (k + length t) R" by (simp add: ms)
  ultimately have mt: "masked_text st' = P @ take k R @ UNK @ drop (k + length t) R"
    by (simp add: st')
  have "k \<le> length R"
  proof -
    from occ have "ms + length t \<le> length (P @ R)" by (simp add: occurs_at_def)
    then show ?thesis by (simp add: ms)
  qed
  then have "search_start st' = length (P @ take k R @ UNK)" by (simp add: st' ms)
  with R mt ne low st' show ?thesis unfolding t_def by (intro disjI2 exI [of _ "take k R"] exI [of _ "drop (k + length (py_strip (fst pair))) R"]) simp
qed

lemma source_of_snoc: "source_of (segs @ [(g, t)]) R = source_of segs (g @ t @ R)"
  by (simp add: source_of_def)

lemma masked_of_snoc: "masked_of (segs @ [(g, t)]) R = masked_of segs (g @ UNK @ R)"
  by (simp add: masked_of_def)

lemma masked_of_rest: "masked_of segs R = masked_of segs [] @ R"
  by (simp add: masked_of_def)

lemma low_confidence_tokens_Cons:
  "low_confidence_tokens threshold (pair # pairs) =
     (if py_strip (fst pair) \<noteq> [] \<and> low_confidence threshold (snd pair)
      then py_strip (fst pair) # low_confidence_tokens threshold pairs
      else low_confidence_tokens threshold pairs)"
  by (simp add: low_confidence_tokens_def)

lemma mask_loop_segments:
  assumes "mask_loop wordc threshold st pairs = Inr st'"
    and "masked_text st = masked_of segs R" and "raw = source_of segs R"
    and "search_start st = length (masked_of segs [])" and "masked_count st = length segs"
  shows "\<exists>segs' R'. raw = source_of (segs @ segs') R' \<and>
      masked_text st' = masked_of (segs @ segs') R' \<and>
      masked_count st' = length (segs @ segs') \<and>
      subseq (map snd segs') (low_confidence_tokens threshold pairs) \<and>
      (\<forall>seg\<in>set segs'. snd seg \<noteq> [])"
  using assms
proof (induction pairs arbitrary: st segs R)
  case Nil
  then have "raw = source_of (segs @ []) R \<and> masked_text st' = masked_of (segs @ []) R \<and>
      masked_count st' = length (segs @ []) \<and>
      subseq (map snd []) (low_confidence_tokens threshold []) \<and>
      (\<forall>seg\<in>set ([] :: (string \<times> string) list). snd seg \<noteq> [])"
    by simp
  then show ?case by blast
next
  case (Cons pair pairs)
  from Cons.prems(1) obtain st1 where
    step: "mask_step wordc threshold st pair = Inr st1"
    and loop: "mask_loop wordc threshold st1 pairs = Inr st'"
    by (auto split: sum.splits)
  from Cons.prems(2) have mt: "masked_text st = masked_of segs [] @ R"
    by (simp add: masked_of_rest [symmetric])
  from mask_step_segment [OF step mt Cons.prems(4)]
  show ?case
  proof (elim disjE exE conjE)
    assume "st1 = st"
    with loop Cons.prems have "\<exists>segs' R'. raw = source_of (segs @ segs') R' \<and>
        masked_text st' = masked_of (segs @ segs') R' \<and>
        masked_count st' = length (segs @ segs') \<and>
        subseq (map snd segs') (low_confidence_tokens threshold pairs) \<and>
        (\<forall>seg\<in>set segs'. snd seg \<noteq> [])"
      by (intro Cons.IH) simp_all
    then obtain segs' R' where r: "raw = source_of (segs @ segs') R'"
      "masked_text st' = masked_of (segs @ segs') R'"
      "masked_count st' = length (segs @ segs')"
      "subseq (map snd segs') (low_confidence_tokens threshold pairs)"
      "\<forall>seg\<in>set segs'. snd seg \<noteq> []" by blast
    from r(4) have "subseq (map snd segs') (low_confidence_tokens threshold (pair # pairs))"
      by (auto simp: low_confidence_tokens_Cons)
    with r show ?thesis by blast
  next
    fix g R'
    assume R: "R = g @ py_strip (fst pair) @ R'"
      and m1: "masked_text st1 = masked_of segs [] @ g @ UNK @ R'"
      and s1: "search_start st1 = length (masked_of segs [] @ g @ UNK)"
      and c1: "masked_count st1 = masked_count st + 1"
      and ne: "py_strip (fst pair) \<noteq> []"
      and low: "low_confidence threshold (snd pair)"
    define t where "t = py_strip (fst pair)"
    have a: "masked_text st1 = masked_of (segs @ [(g, t)]) R'"
      using m1 by (simp add: masked_of_snoc masked_of_rest [symmetric])
    have b: "raw = source_of (segs @ [(g, t)]) R'"
      using Cons.prems(3) R by (simp add: source_of_snoc t_def)
    have c: "search_start st1 = length (masked_of (segs @ [(g, t)]) [])"
      using s1 by (simp add: masked_of_snoc) (simp add: masked_of_def)
    have d: "masked_count st1 = length (segs @ [(g, t)])"
      using c1 Cons.prems(5) by simp
    from Cons.IH [OF loop a b c d] obtain segs' R'' where
      r: "raw = source_of ((segs @ [(g, t)]) @ segs') R''"
      "masked_text st' = masked_of ((segs @ [(g, t)]) @ segs') R''"
      "masked_count st' = length ((segs @ [(g, t)]) @ segs')"
      "subseq (map snd segs') (low_confidence_tokens threshold pairs)"
      "\<forall>seg\<in>set segs'. snd seg \<noteq> []" by blast
    from r(4) ne low have "subseq (map snd ((g, t) # segs'))
        (low_confidence_tokens threshold (pair # pairs))"
      by (simp add: low_confidence_tokens_Cons t_def)
    moreover from r(5) ne have "\<forall>seg\<in>set ((g, t) # segs'). snd seg \<noteq> []"
      by (simp add: t_def)
    ultimately show ?thesis using r(1,2,3)
      by (intro exI [of _ "(g, t) # segs'"] exI [of _ R'']) simp
  qed
qed

lemma mask_step_cursor:
  assumes "mask_step wordc threshold st pair = Inr st'"
  shows "search_start st \<le> search_start st'"
proof -
  from mask_step_cases [OF assms] show ?thesis
    by (auto simp: pattern_search_Some)
qed

text \<open>
  C3 (masking replacement invariant). When the masker returns \<open>(masked, n)\<close>, the
  transcript can be cut into \<open>n\<close> segments, each a gap followed by a non-empty token
  occurrence, and a rest, such that the masked text is the transcript with exactly these
  \<open>n\<close> occurrences replaced by one placeholder each and everything else unchanged; the
  replaced tokens are, in this left-to-right order, a subsequence of the trimmed
  low-confidence tokens in the order supplied. The cursor never moves backwards.
\<close>

theorem mask_replacement_invariant:
  assumes "build_masked_text wordc raw_text tokens confidences threshold = Inr (masked, n)"
  shows "(\<exists>segs rest. raw_text = source_of segs rest \<and> masked = masked_of segs rest \<and>
      n = length segs \<and>
      subseq (map snd segs) (low_confidence_tokens threshold (zip tokens confidences)) \<and>
      (\<forall>seg\<in>set segs. snd seg \<noteq> [])) \<and>
    (\<forall>st pair st'. mask_step wordc threshold st pair = Inr st' \<longrightarrow>
        search_start st \<le> search_start st')"
proof
  let ?st0 = "\<lparr>masked_text = raw_text, masked_count = 0, search_start = 0\<rparr>"
  from assms obtain st' where
    loop: "mask_loop wordc threshold ?st0 (zip tokens confidences) = Inr st'"
    and res: "masked = masked_text st'" "n = masked_count st'"
    by (auto simp: build_masked_text_def split: sum.splits)
  have "\<exists>segs' R'. raw_text = source_of ([] @ segs') R' \<and>
      masked_text st' = masked_of ([] @ segs') R' \<and>
      masked_count st' = length ([] @ segs') \<and>
      subseq (map snd segs') (low_confidence_tokens threshold (zip tokens confidences)) \<and>
      (\<forall>seg\<in>set segs'. snd seg \<noteq> [])"
    by (rule mask_loop_segments [OF loop, where R = raw_text])
      (simp_all add: masked_of_def source_of_def)
  with res show "\<exists>segs rest. raw_text = source_of segs rest \<and> masked = masked_of segs rest \<and>
      n = length segs \<and>
      subseq (map snd segs) (low_confidence_tokens threshold (zip tokens confidences)) \<and>
      (\<forall>seg\<in>set segs. snd seg \<noteq> [])"
    by simp
next
  show "\<forall>st pair st'. mask_step wordc threshold st pair = Inr st' \<longrightarrow>
      search_start st \<le> search_start st'"
    using mask_step_cursor by blast
qed

theorem mask_replacement_invariant_witness:
  "build_masked_text ascii_word ''a b a b'' [''b'', ''a'', ''b''] [10, 20, 30] 65
     = Inr (''a [[UNK]] [[UNK]] [[UNK]]'', 3) \<and>
   (\<exists>segs rest. ''a b a b'' = source_of segs rest \<and>
      ''a [[UNK]] [[UNK]] [[UNK]]'' = masked_of segs rest \<and> 3 = length segs \<and>
      subseq (map snd segs)
        (low_confidence_tokens 65 (zip [''b'', ''a'', ''b''] [10, 20, 30])))"
proof -
  have val: "build_masked_text ascii_word ''a b a b'' [''b'', ''a'', ''b''] [10, 20, 30] 65
     = Inr (''a [[UNK]] [[UNK]] [[UNK]]'', 3)" by code_simp
  from mask_replacement_invariant [OF val] val show ?thesis by blast
qed

end
